theory Spec2Isabelle
  imports Complex_Main "HOL-Library.Multiset"
begin

section \<open>Numbers\<close>

text \<open>
  Both fields of an agent are Go \<open>float64\<close> values. The model keeps the finite values as
  exact reals and adds the three special values that IEEE arithmetic produces where a real
  operation is undefined: a division by zero does not stop a Go program, it yields an
  infinity or a NaN that flows on through the later arithmetic and comparisons. Rounding,
  overflow of finite values and the sign of zero are outside the model: every zero counts
  as \<open>+0\<close>. On the wealths the program reaches (small non-negative integers) float64
  addition, halving and \<open>math.Floor\<close> are exact, so the model agrees with the code there.
\<close>

datatype f64 = Fin real | PInf | NInf | NaN

definition inf_of :: "bool \<Rightarrow> f64" where
  "inf_of neg = (if neg then NInf else PInf)"

fun is_neg :: "f64 \<Rightarrow> bool" where
  "is_neg (Fin a) = (a < 0)"
| "is_neg NInf = True"
| "is_neg PInf = False"
| "is_neg NaN = False"

fun fneg :: "f64 \<Rightarrow> f64" where
  "fneg (Fin a) = Fin (- a)"
| "fneg PInf = NInf"
| "fneg NInf = PInf"
| "fneg NaN = NaN"

fun fadd :: "f64 \<Rightarrow> f64 \<Rightarrow> f64" where
  "fadd (Fin a) (Fin b) = Fin (a + b)"
| "fadd NaN y = NaN"
| "fadd x NaN = NaN"
| "fadd PInf NInf = NaN"
| "fadd NInf PInf = NaN"
| "fadd PInf y = PInf"
| "fadd NInf y = NInf"
| "fadd (Fin a) y = y"

definition fsub :: "f64 \<Rightarrow> f64 \<Rightarrow> f64" where
  "fsub x y = fadd x (fneg y)"

fun fmul :: "f64 \<Rightarrow> f64 \<Rightarrow> f64" where
  "fmul (Fin a) (Fin b) = Fin (a * b)"
| "fmul NaN y = NaN"
| "fmul x NaN = NaN"
| "fmul (Fin a) y = (if a = 0 then NaN else inf_of (is_neg (Fin a) \<noteq> is_neg y))"
| "fmul x (Fin b) = (if b = 0 then NaN else inf_of (is_neg x \<noteq> is_neg (Fin b)))"
| "fmul x y = inf_of (is_neg x \<noteq> is_neg y)"

fun fdiv :: "f64 \<Rightarrow> f64 \<Rightarrow> f64" where
  "fdiv (Fin a) (Fin b) =
     (if b = 0 then (if a = 0 then NaN else inf_of (a < 0)) else Fin (a / b))"
| "fdiv NaN y = NaN"
| "fdiv x NaN = NaN"
| "fdiv (Fin a) y = Fin 0"
| "fdiv x (Fin b) = inf_of (is_neg x \<noteq> (b < 0))"
| "fdiv x y = NaN"

fun fabs :: "f64 \<Rightarrow> f64" where
  "fabs (Fin a) = Fin \<bar>a\<bar>"
| "fabs NaN = NaN"
| "fabs x = PInf"

fun ffloor :: "f64 \<Rightarrow> f64" where
  "ffloor (Fin a) = Fin (of_int \<lfloor>a\<rfloor>)"
| "ffloor x = x"

text \<open>Go's \<open>==\<close> on floats: a NaN equals nothing, itself included.\<close>

fun feq :: "f64 \<Rightarrow> f64 \<Rightarrow> bool" where
  "feq (Fin a) (Fin b) = (a = b)"
| "feq PInf PInf = True"
| "feq NInf NInf = True"
| "feq x y = False"

definition fsum :: "f64 list \<Rightarrow> f64" where
  "fsum xs = foldl fadd (Fin 0) xs"

section \<open>Agents and the population\<close>

datatype ActivationOrder = uniform | random | poisson | inversePoisson | naturalPoisson

record Agent =
  wealth :: f64
  lam :: f64

type_synonym Population = "Agent list"

text \<open>
  An event holds a pointer \<open>&Pop[i]\<close>; the model keeps the index \<open>i\<close>. An event is only
  emitted under the guard \<open>nextT < 1.0\<close>, which no NaN passes, so its time is a real.
\<close>

record event =
  time :: real
  agent :: nat

text \<open>\<open>Populate\<close>: \<open>make\<close> zeroes both fields, the loop sets \<open>Pop[i].wealth = i + 1\<close>.\<close>

definition Populate :: "nat \<Rightarrow> Population" where
  "Populate n = map (\<lambda>i. \<lparr>wealth = Fin (real (i + 1)), lam = Fin 0\<rparr>) [0..<n]"

text \<open>
  \<open>Proc(a, b *Agent)\<close>: the pointers are indices into the population, and they may be
  equal. The average is computed first, then \<open>b.wealth\<close> is written, then \<open>a.wealth\<close>.
\<close>

definition averg :: "f64 \<Rightarrow> f64 \<Rightarrow> f64" where
  "averg wa wb = ffloor (fdiv (fadd wa wb) (Fin 2))"

definition Proc :: "nat \<Rightarrow> nat \<Rightarrow> Population \<Rightarrow> Population" where
  "Proc a b pop =
     (let v = averg (wealth (pop ! a)) (wealth (pop ! b));
          pop1 = pop[b := (pop ! b)\<lparr>wealth := v\<rparr>]
      in pop1[a := (pop1 ! a)\<lparr>wealth := v\<rparr>])"

text \<open>A sequence of \<open>Proc\<close> calls, one per pair, in order.\<close>

fun level_pairs :: "(nat \<times> nat) list \<Rightarrow> Population \<Rightarrow> Population" where
  "level_pairs [] pop = pop"
| "level_pairs ((a, b) # ps) pop = level_pairs ps (Proc a b pop)"

section \<open>Uniform and random activation\<close>

text \<open>
  \<open>Randmact\<close> calls \<open>Proc\<close> \<open>NumOfAgents / 2\<close> times on two fresh draws of
  \<open>rand.Intn(NumOfAgents)\<close>; \<open>picks\<close> is the sequence of drawn pairs, first argument first.
\<close>

definition Randmact :: "nat \<Rightarrow> (nat \<times> nat) list \<Rightarrow> Population \<Rightarrow> Population" where
  "Randmact n picks pop = level_pairs (take (n div 2) picks) pop"

text \<open>
  \<open>Unifact\<close> puts the permutation drawn by \<open>rand.Perm(len(Pop))\<close> on a FIFO queue and then
  calls \<open>Get(2)\<close> \<open>Len / 2\<close> times. \<open>get_pairs k q\<close> is that loop: \<open>None\<close> stands for a
  \<open>Get\<close> that cannot deliver two items (the code would block, or fail on \<open>bag[1]\<close>).
  The goroutines started for the pairs are joined before \<open>Unifact\<close> returns; the model runs
  them in queue order.
\<close>

fun get_pairs :: "nat \<Rightarrow> nat list \<Rightarrow> (nat \<times> nat) list option" where
  "get_pairs 0 q = Some []"
| "get_pairs (Suc k) (al # be # q) = map_option ((#) (al, be)) (get_pairs k q)"
| "get_pairs (Suc k) q = None"

definition Unifact_pairs :: "nat list \<Rightarrow> (nat \<times> nat) list option" where
  "Unifact_pairs prm = get_pairs (length prm div 2) prm"

definition Unifact :: "nat list \<Rightarrow> Population \<Rightarrow> Population option" where
  "Unifact prm pop = map_option (\<lambda>ps. level_pairs ps pop) (Unifact_pairs prm)"

text \<open>The indices that take part in a list of pairs, in order.\<close>

fun paired :: "(nat \<times> nat) list \<Rightarrow> nat list" where
  "paired [] = []"
| "paired ((a, b) # ps) = a # b # paired ps"

section \<open>Poisson activation\<close>

text \<open>
  \<open>stats.StatsMean\<close> of the statistics library: in exact arithmetic, the sum over the
  count. The mean of an empty population is never used: every loop that reads it runs over
  the agents.
\<close>

definition StatsMean :: "f64 list \<Rightarrow> f64" where
  "StatsMean bals = fdiv (fsum bals) (Fin (real (length bals)))"

definition mean_wealth :: "Population \<Rightarrow> f64" where
  "mean_wealth pop = StatsMean (map wealth pop)"

text \<open>The first loop of \<open>Poisact\<close>: \<open>totd\<close>, the total distance from the mean.\<close>

definition total_dist :: "Population \<Rightarrow> f64" where
  "total_dist pop = fsum (map (\<lambda>a. fabs (fsub (wealth a) (mean_wealth pop))) pop)"

text \<open>The body of the second loop: the rate of one agent before normalisation.\<close>

definition raw_rate :: "ActivationOrder \<Rightarrow> f64 \<Rightarrow> f64 \<Rightarrow> Agent \<Rightarrow> f64" where
  "raw_rate act mnw totd a =
     (if act = inversePoisson then
        (let denom = fabs (fsub (wealth a) mnw);
             denom = (if feq denom (Fin 0) then Fin (1 / 10000) else denom)
         in fdiv totd denom)
      else if act = naturalPoisson then
        (let denom = wealth a;
             denom = (if feq denom (Fin 0) then Fin (1 / 10000) else denom)
         in fdiv (Fin 1) denom)
      else fdiv (fabs (fsub (wealth a) mnw)) totd)"

definition set_rates :: "ActivationOrder \<Rightarrow> Population \<Rightarrow> Population" where
  "set_rates act pop =
     map (\<lambda>a. a\<lparr>lam := raw_rate act (mean_wealth pop) (total_dist pop) a\<rparr>) pop"

text \<open>\<open>Normalize\<close>; \<open>n\<close> is the global \<open>NumOfAgents\<close>.\<close>

definition scaled :: "nat \<Rightarrow> f64 \<Rightarrow> f64 \<Rightarrow> f64" where
  "scaled n totlam l =
     (let l' = fdiv (fmul (fmul l (Fin (real n))) (Fin (11 / 10))) totlam
      in if feq l' (Fin 0) then fdiv (Fin 1) (Fin (real n)) else l')"

definition Normalize :: "nat \<Rightarrow> Population \<Rightarrow> Population" where
  "Normalize n pop = map (\<lambda>a. a\<lparr>lam := scaled n (fsum (map lam pop)) (lam a)\<rparr>) pop"

text \<open>
  After \<open>sort.Sort\<close>: an odd list loses its last event, and a list longer than the
  population is cut to the population's size.
\<close>

definition trim_events :: "nat \<Rightarrow> event list \<Rightarrow> event list" where
  "trim_events n es =
     (let e1 = (if length es mod 2 > 0 then take (length es - 1) es else es)
      in if length e1 > n then take n e1 else e1)"

text \<open>
  The last loop of \<open>Poisact\<close>: \<open>half\<close> rounds, each shifting two events off the deque and
  levelling their agents; a deque with fewer than two events stops the loop.
\<close>

fun deque_loop :: "nat \<Rightarrow> event list \<Rightarrow> Population \<Rightarrow> Population" where
  "deque_loop 0 q pop = pop"
| "deque_loop (Suc j) (al # be # q) pop = deque_loop j q (Proc (agent al) (agent be) pop)"
| "deque_loop (Suc j) q pop = pop"

text \<open>
  \<open>Poisact\<close>. Two things come from outside the function and are parameters of the model:
  \<open>srt\<close> is \<open>sort.Sort\<close> of Go's standard library on the \<open>events\<close> type (\<open>Less\<close> compares
  the times), and \<open>emitted\<close> is the list \<open>aTimes\<close> as the event-generation loop leaves it,
  in emission order; that loop consumes the random stream.
\<close>

definition Poisact ::
  "ActivationOrder \<Rightarrow> nat \<Rightarrow> (event list \<Rightarrow> event list) \<Rightarrow> event list \<Rightarrow> Population \<Rightarrow> Population"
where
  "Poisact act n srt emitted pop =
     (let pop2 = Normalize n (set_rates act pop);
          aTimes = trim_events (length pop2) (srt emitted)
      in deque_loop (length aTimes div 2) aTimes pop2)"

text \<open>
  What \<open>sort.Sort\<close> promises of its result on one input: ascending by \<open>Less\<close>, and the
  same events. Its documentation adds that the sort is not guaranteed to be stable.
\<close>

definition sort_ok :: "(event list \<Rightarrow> event list) \<Rightarrow> event list \<Rightarrow> bool" where
  "sort_ok srt es = (sorted (map time (srt es)) \<and> mset (srt es) = mset es)"

text \<open>The stable sort by time that the specification describes.\<close>

definition stable_sort :: "event list \<Rightarrow> event list" where
  "stable_sort es = sort_key time es"

text \<open>
  One sorter that meets the contract: the path \<open>sort.Sort\<close> takes on at most twelve
  elements in the Go releases 1.6 to 1.18, a Shell-sort pass with gap 6 followed by an
  insertion sort, both written with \<open>Less\<close> and \<open>Swap\<close> as the library does.
\<close>

definition Swap :: "nat \<Rightarrow> nat \<Rightarrow> event list \<Rightarrow> event list" where
  "Swap i j e = e[i := e ! j, j := e ! i]"

definition Less :: "event list \<Rightarrow> nat \<Rightarrow> nat \<Rightarrow> bool" where
  "Less e i j = (time (e ! i) < time (e ! j))"

fun sift_down :: "nat \<Rightarrow> event list \<Rightarrow> event list" where
  "sift_down 0 e = e"
| "sift_down (Suc j) e = (if Less e (Suc j) j then sift_down j (Swap (Suc j) j e) else e)"

definition insertionSort :: "event list \<Rightarrow> event list" where
  "insertionSort e = fold sift_down [1..<length e] e"

definition shell_pass :: "event list \<Rightarrow> event list" where
  "shell_pass e = fold (\<lambda>i e. if Less e i (i - 6) then Swap i (i - 6) e else e) [6..<length e] e"

definition sort_small :: "event list \<Rightarrow> event list" where
  "sort_small e = (if length e > 1 then insertionSort (shell_pass e) else e)"

section \<open>The runs\<close>

text \<open>The random outcome of one turn: each policy reads the field it draws.\<close>

record draws =
  prm :: "nat list"
  picks :: "(nat \<times> nat) list"
  emitted :: "event list"

text \<open>The dispatch on \<open>activationType\<close> in the turn loop of \<open>main\<close>.\<close>

definition turn ::
  "ActivationOrder \<Rightarrow> nat \<Rightarrow> (event list \<Rightarrow> event list) \<Rightarrow> draws \<Rightarrow> Population \<Rightarrow> Population option"
where
  "turn act n srt d pop =
     (if act = uniform then Unifact (prm d) pop
      else if act = random then Some (Randmact n (picks d) pop)
      else Some (Poisact act n srt (emitted d) pop))"

text \<open>
  The turn loop: \<open>sds\<close> starts with the deviation of the fresh population and gets one
  more value after every turn. \<open>sdw\<close> is the standard deviation that \<open>Asdw\<close> returns (a
  call into the statistics library); \<open>tr i\<close> is turn \<open>i\<close> with its random outcome.
\<close>

fun turns_loop ::
  "(Population \<Rightarrow> f64) \<Rightarrow> (nat \<Rightarrow> Population \<Rightarrow> Population option) \<Rightarrow> nat \<Rightarrow> nat \<Rightarrow>
   Population \<Rightarrow> f64 list \<Rightarrow> f64 list option"
where
  "turns_loop sdw tr 0 i pop sds = Some sds"
| "turns_loop sdw tr (Suc k) i pop sds =
     (case tr i pop of
        None \<Rightarrow> None
      | Some pop' \<Rightarrow> turns_loop sdw tr k (Suc i) pop' (sds @ [sdw pop']))"

definition run_sds ::
  "(Population \<Rightarrow> f64) \<Rightarrow> (nat \<Rightarrow> Population \<Rightarrow> Population option) \<Rightarrow> nat \<Rightarrow> nat \<Rightarrow>
   f64 list option"
where
  "run_sds sdw tr NumTurns n =
     (let pop = Populate n in turns_loop sdw tr NumTurns 0 pop [sdw pop])"

text \<open>
  The results matrix of one policy is \<open>mat64.NewDense(NumRuns, NumTurns, nil)\<close>: a list of
  \<open>NumRuns\<close> rows of \<open>NumTurns\<close> zeros. \<open>SetRow\<close> and \<open>Row\<close> of the matrix library both
  come down to Go's built-in \<open>copy(dst, src)\<close>, which copies as many elements as the
  shorter of the two slices holds; a row index out of range panics.
\<close>

definition NewDense :: "nat \<Rightarrow> nat \<Rightarrow> f64 list list" where
  "NewDense r c = replicate r (replicate c (Fin 0))"

definition copy_into :: "f64 list \<Rightarrow> f64 list \<Rightarrow> f64 list" where
  "copy_into dst src = take (length dst) src @ drop (length src) dst"

definition SetRow :: "f64 list list \<Rightarrow> nat \<Rightarrow> f64 list \<Rightarrow> f64 list list option" where
  "SetRow m i src = (if i < length m then Some (m[i := copy_into (m ! i) src]) else None)"

definition Row :: "f64 list list \<Rightarrow> f64 list \<Rightarrow> nat \<Rightarrow> f64 list option" where
  "Row m dst i = (if i < length m then Some (copy_into dst (m ! i)) else None)"

text \<open>
  One run of \<open>main\<close> followed to the regression: the trajectory \<open>sds\<close> is stored in row
  \<open>ri\<close> of the matrix, and the analysis loop reads that row back into \<open>runArray\<close>, a slice
  of as many elements as the matrix has columns. \<open>runArray\<close> is what the logarithm and the
  regression are applied to.
\<close>

definition runArray ::
  "(Population \<Rightarrow> f64) \<Rightarrow> (nat \<Rightarrow> Population \<Rightarrow> Population option) \<Rightarrow> nat \<Rightarrow> nat \<Rightarrow> nat \<Rightarrow>
   nat \<Rightarrow> f64 list option"
where
  "runArray sdw tr NumRuns NumTurns n ri =
     (case run_sds sdw tr NumTurns n of
        None \<Rightarrow> None
      | Some sds \<Rightarrow>
          (case SetRow (NewDense NumRuns NumTurns) ri sds of
             None \<Rightarrow> None
           | Some m \<Rightarrow> Row m (replicate NumTurns (Fin 0)) ri))"

section \<open>Reachable populations\<close>

text \<open>
  A turn's random outcome is well formed for a population of \<open>n\<close> agents when the
  permutation is one of \<open>0..n-1\<close>, the random picks are \<open>n / 2\<close> pairs of indices below
  \<open>n\<close>, and every emitted event points into the population.
\<close>

definition draws_ok :: "nat \<Rightarrow> draws \<Rightarrow> bool" where
  "draws_ok n d =
     (mset (prm d) = mset [0..<n] \<and>
      length (picks d) = n div 2 \<and>
      (\<forall>p \<in> set (picks d). fst p < n \<and> snd p < n) \<and>
      (\<forall>e \<in> set (emitted d). agent e < n))"

inductive reachable :: "nat \<Rightarrow> Population \<Rightarrow> bool" for n :: nat where
  start: "reachable n (Populate n)"
| step: "reachable n pop \<Longrightarrow> draws_ok n d \<Longrightarrow> sort_ok srt (emitted d) \<Longrightarrow>
         turn act n srt d pop = Some pop' \<Longrightarrow> reachable n pop'"

fun nonneg_int :: "f64 \<Rightarrow> bool" where
  "nonneg_int (Fin x) = (0 \<le> x \<and> of_int \<lfloor>x\<rfloor> = x)"
| "nonneg_int x = False"

text \<open>The invariant: every wealth is a non-negative integer-valued number.\<close>

definition wealth_ok :: "Population \<Rightarrow> bool" where
  "wealth_ok pop = (\<forall>i < length pop. nonneg_int (wealth (pop ! i)))"

section \<open>Notions the claims are stated with\<close>



text \<open>Event \<open>2k\<close> paired with event \<open>2k+1\<close>, for every \<open>k\<close> below half the length.\<close>

definition event_pairs :: "event list \<Rightarrow> (nat \<times> nat) list" where
  "event_pairs q = map (\<lambda>k. (agent (q ! (2 * k)), agent (q ! (2 * k + 1)))) [0..<length q div 2]"







definition five_events :: "event list" where
  "five_events =
     [\<lparr>time = 1 / 2, agent = 0\<rparr>, \<lparr>time = 3 / 4, agent = 0\<rparr>, \<lparr>time = 1 / 4, agent = 1\<rparr>,
      \<lparr>time = 2 / 3, agent = 1\<rparr>, \<lparr>time = 9 / 10, agent = 1\<rparr>]"

definition tied_events :: "event list" where
  "tied_events =
     [\<lparr>time = 1 / 2, agent = 0\<rparr>, \<lparr>time = 1 / 2, agent = 1\<rparr>, \<lparr>time = 1 / 2, agent = 2\<rparr>,
      \<lparr>time = 1 / 2, agent = 3\<rparr>, \<lparr>time = 1 / 2, agent = 4\<rparr>, \<lparr>time = 1 / 2, agent = 5\<rparr>,
      \<lparr>time = 1 / 4, agent = 6\<rparr>]"

definition first_turn :: Population where
  "first_turn = Poisact poisson 2 stable_sort
     [\<lparr>time = 1 / 4, agent = 0\<rparr>, \<lparr>time = 1 / 2, agent = 1\<rparr>] (Populate 2)"

section \<open>Properties of Proc\<close>

lemma length_Proc: "length (Proc a b pop) = length pop"
  by (simp add: Proc_def Let_def)

lemma wealth_Proc:
  assumes "a < length pop" "b < length pop" "i < length pop"
  shows "wealth (Proc a b pop ! i) =
           (if i = a \<or> i = b then averg (wealth (pop ! a)) (wealth (pop ! b))
            else wealth (pop ! i))"
  using assms by (auto simp: Proc_def Let_def nth_list_update)

lemma averg_idem: "averg (averg x y) (averg x y) = averg x y"
proof (cases "fadd x y")
  case (Fin s)
  then show ?thesis by (simp add: averg_def)
next
  case PInf
  then show ?thesis by (simp add: averg_def inf_of_def)
next
  case NInf
  then show ?thesis by (simp add: averg_def inf_of_def)
next
  case NaN
  then show ?thesis by (simp add: averg_def)
qed

lemma nth_Proc:
  assumes "a < length pop" "b < length pop" "i < length pop"
  shows "Proc a b pop ! i =
           (if i = a \<or> i = b then (pop ! i)\<lparr>wealth := averg (wealth (pop ! a)) (wealth (pop ! b))\<rparr>
            else pop ! i)"
  using assms by (auto simp: Proc_def Let_def nth_list_update)

lemma averg_int:
  assumes "of_int \<lfloor>x\<rfloor> = x" "of_int \<lfloor>y\<rfloor> = y"
  shows "\<exists>v. averg (Fin x) (Fin y) = Fin v \<and> of_int \<lfloor>v\<rfloor> = v \<and> x + y - 1 \<le> 2 * v \<and> 2 * v \<le> x + y"
proof -
  obtain i j where x: "x = of_int i" and y: "y = of_int j"
    using assms by metis
  have "(x + y) / 2 = of_int (i + j) / of_int 2" by (simp add: x y)
  then have fl: "\<lfloor>(x + y) / 2\<rfloor> = (i + j) div 2"
    by (simp only: floor_divide_of_int_eq)
  have av: "averg (Fin x) (Fin y) = Fin (of_int ((i + j) div 2))"
    by (simp add: averg_def fl)
  have "real_of_int (i + j) - 1 \<le> 2 * real_of_int ((i + j) div 2)"
  proof -
    have "i + j - 1 \<le> 2 * ((i + j) div 2)" by presburger
    then have "real_of_int (i + j - 1) \<le> real_of_int (2 * ((i + j) div 2))"
      by (simp only: of_int_le_iff)
    then show ?thesis by simp
  qed
  moreover have "2 * real_of_int ((i + j) div 2) \<le> real_of_int (i + j)"
  proof -
    have "2 * ((i + j) div 2) \<le> i + j" by presburger
    then have "real_of_int (2 * ((i + j) div 2)) \<le> real_of_int (i + j)"
      by (simp only: of_int_le_iff)
    then show ?thesis by simp
  qed
  ultimately show ?thesis
    using av by (simp add: x y)
qed


subsection \<open>Levelling twice\<close>

text \<open>
  Claim C6. \<open>Proc\<close> is idempotent: for every two agents of the population, equal or not and
  whatever their wealths, a second call of \<open>Proc(a, b)\<close> right after the first leaves the
  population as the first call left it. After the first call both wealths are the same
  floored value, and the floor of the average of a floored value with itself is that value.
\<close>

theorem Proc_idempotent:
  assumes "a < length pop" "b < length pop"
  shows "Proc a b (Proc a b pop) = Proc a b pop"
proof (rule nth_equalityI)
  show "length (Proc a b (Proc a b pop)) = length (Proc a b pop)"
    by (simp add: length_Proc)
next
  fix i assume "i < length (Proc a b (Proc a b pop))"
  then have i: "i < length pop" by (simp add: length_Proc)
  show "Proc a b (Proc a b pop) ! i = Proc a b pop ! i"
    using assms i by (simp add: nth_Proc length_Proc averg_idem)
qed

theorem Proc_idempotent_witness:
  "0 < length (Populate 2) \<and> 1 < length (Populate 2) \<and>
   Proc 0 1 (Proc 0 1 (Populate 2)) = Proc 0 1 (Populate 2) \<and>
   map wealth (Proc 0 1 (Populate 2)) = [Fin 1, Fin 1]"
proof -
  have l: "0 < length (Populate 2)" "1 < length (Populate 2)"
    by (simp_all add: Populate_def)
  have "map wealth (Proc 0 1 (Populate 2)) = [Fin 1, Fin 1]"
    by (simp add: Populate_def Proc_def averg_def Let_def upt_rec)
  then show ?thesis
    using l Proc_idempotent [OF l] by simp
qed

subsection \<open>Levelling an agent with itself\<close>




subsection \<open>The wealth of a pair\<close>




section \<open>The pairs of a uniform turn\<close>

lemma nth_paired:
  "k < length ps \<Longrightarrow> ps ! k = (paired ps ! (2 * k), paired ps ! (2 * k + 1))"
proof (induction ps arbitrary: k rule: paired.induct)
  case 1
  then show ?case by simp
next
  case (2 a b ps)
  then show ?case by (cases k) auto
qed

lemma get_pairs_take:
  "2 * k \<le> length q \<Longrightarrow>
   \<exists>ps. get_pairs k q = Some ps \<and> length ps = k \<and> paired ps = take (2 * k) q"
  by (induction k q rule: get_pairs.induct) auto

text \<open>
  Claim C1. Let \<open>q\<close> be the permutation of the indices \<open>0..N-1\<close> that \<open>rand.Perm\<close> returns. One
  \<open>Unifact\<close> turn then levels exactly \<open>N div 2\<close> pairs, pair \<open>k\<close> being the entries \<open>2k\<close> and
  \<open>2k+1\<close> of \<open>q\<close>. The indices of all pairs are distinct, so the pairs are pairwise disjoint
  and no agent is in two of them, and they are indices of the population. When \<open>N\<close> is odd
  the last entry of \<open>q\<close> is in no pair.
\<close>

theorem Unifact_pairs_disjoint:
  assumes "mset q = mset [0..<N]"
  shows "\<exists>ps. Unifact_pairs q = Some ps \<and> Unifact q pop = Some (level_pairs ps pop) \<and>
           length ps = N div 2 \<and>
           (\<forall>k < N div 2. ps ! k = (q ! (2 * k), q ! (2 * k + 1))) \<and>
           distinct (paired ps) \<and> set (paired ps) \<subseteq> {0..<N} \<and>
           (odd N \<longrightarrow> last q \<notin> set (paired ps))"
proof -
  have len: "length q = N"
    using mset_eq_length [OF assms] by simp
  have dist: "distinct q"
    using mset_eq_imp_distinct_iff [OF assms] by simp
  have setq: "set q = {0..<N}"
    using mset_eq_setD [OF assms] by simp
  have "2 * (N div 2) \<le> length q"
    using len by simp
  then obtain ps where ps: "get_pairs (N div 2) q = Some ps" "length ps = N div 2"
      "paired ps = take (2 * (N div 2)) q"
    using get_pairs_take by blast
  have up: "Unifact_pairs q = Some ps"
    using ps(1) len by (simp add: Unifact_pairs_def)
  have nth: "\<forall>k < N div 2. ps ! k = (q ! (2 * k), q ! (2 * k + 1))"
  proof (intro allI impI)
    fix k assume k: "k < N div 2"
    then have "ps ! k = (paired ps ! (2 * k), paired ps ! (2 * k + 1))"
      using nth_paired ps(2) by simp
    moreover have "2 * k < 2 * (N div 2)" "2 * k + 1 < 2 * (N div 2)"
      using k by auto
    ultimately show "ps ! k = (q ! (2 * k), q ! (2 * k + 1))"
      by (simp add: ps(3))
  qed
  have d: "distinct (paired ps)"
    using dist by (simp add: ps(3))
  have sub: "set (paired ps) \<subseteq> {0..<N}"
    using set_take_subset [of "2 * (N div 2)" q] setq by (simp add: ps(3))
  have odd: "odd N \<longrightarrow> last q \<notin> set (paired ps)"
  proof
    assume o: "odd N"
    then have N: "N = Suc (2 * (N div 2))" by presburger
    then have lt: "2 * (N div 2) < length q" using len by simp
    have ne: "q \<noteq> []" using lt by auto
    have "q = take (2 * (N div 2)) q @ [q ! (2 * (N div 2))]"
      using take_Suc_conv_app_nth [OF lt] N len by simp
    moreover have "length q - 1 = 2 * (N div 2)"
      using N len by arith
    then have "last q = q ! (2 * (N div 2))"
      using last_conv_nth [OF ne] by simp
    ultimately have "q = paired ps @ [last q]"
      by (simp add: ps(3))
    then have "distinct (paired ps @ [last q])"
      using dist by simp
    then show "last q \<notin> set (paired ps)" by simp
  qed
  show ?thesis
    using up ps(2) nth d sub odd by (simp add: Unifact_def)
qed

theorem Unifact_pairs_disjoint_witness:
  "mset [2, 0, 1] = mset [0..<3] \<and> Unifact_pairs [2, 0, 1] = Some [(2, 0)] \<and>
   (\<exists>ps. Unifact_pairs [2, 0, 1] = Some ps \<and> length ps = 3 div 2 \<and> distinct (paired ps) \<and>
         last [2, 0, 1] \<notin> set (paired ps))"
proof -
  have m: "mset [2, 0, 1] = mset [0..<3]"
    by (simp add: upt_rec)
  have u: "Unifact_pairs [2, 0, 1] = Some [(2, 0)]"
  proof -
    have "length [2, 0, 1 :: nat] div 2 = Suc 0" by simp
    then show ?thesis by (simp add: Unifact_pairs_def)
  qed
  show ?thesis
    using m u Unifact_pairs_disjoint [OF m, of "[]"] by simp
qed

text \<open>
  \<open>Unifact\<close> runs the \<open>Proc\<close> calls of a turn in goroutines. Calls on disjoint pairs
  commute, so every order of the goroutines gives the population the model computes.
\<close>

lemma Proc_commute:
  assumes "a < length pop" "b < length pop" "c < length pop" "d < length pop"
    and "a \<noteq> c" "a \<noteq> d" "b \<noteq> c" "b \<noteq> d"
  shows "Proc a b (Proc c d pop) = Proc c d (Proc a b pop)"
proof (rule nth_equalityI)
  show "length (Proc a b (Proc c d pop)) = length (Proc c d (Proc a b pop))"
    by (simp add: length_Proc)
next
  fix i assume "i < length (Proc a b (Proc c d pop))"
  then have "i < length pop" by (simp add: length_Proc)
  then show "Proc a b (Proc c d pop) ! i = Proc c d (Proc a b pop) ! i"
    using assms by (simp add: nth_Proc length_Proc)
qed

section \<open>The wealth invariant\<close>

lemma averg_nonneg_int:
  assumes "nonneg_int x" "nonneg_int y"
  shows "nonneg_int (averg x y)"
proof -
  obtain r where r: "x = Fin r" "0 \<le> r" "of_int \<lfloor>r\<rfloor> = r"
    using assms(1) by (cases x) auto
  obtain s where s: "y = Fin s" "0 \<le> s" "of_int \<lfloor>s\<rfloor> = s"
    using assms(2) by (cases y) auto
  obtain v where v: "averg (Fin r) (Fin s) = Fin v" "of_int \<lfloor>v\<rfloor> = v" "r + s - 1 \<le> 2 * v"
    using averg_int [OF r(3) s(3)] by blast
  have "- 1 \<le> 2 * real_of_int \<lfloor>v\<rfloor>"
    using v(2,3) r(2) s(2) by linarith
  then have "real_of_int (- 1) \<le> real_of_int (2 * \<lfloor>v\<rfloor>)" by simp
  then have "- 1 \<le> 2 * \<lfloor>v\<rfloor>" by (simp only: of_int_le_iff)
  then have "0 \<le> \<lfloor>v\<rfloor>" by arith
  then have "0 \<le> v" using v(2) by linarith
  then show ?thesis using v(1,2) r(1) s(1) by simp
qed

lemma wealth_ok_Proc:
  assumes "wealth_ok pop" "a < length pop" "b < length pop"
  shows "wealth_ok (Proc a b pop)"
  using assms by (auto simp: wealth_ok_def length_Proc wealth_Proc averg_nonneg_int)

lemma wealth_ok_level_pairs:
  "wealth_ok pop \<Longrightarrow> \<forall>p \<in> set ps. fst p < length pop \<and> snd p < length pop \<Longrightarrow>
   wealth_ok (level_pairs ps pop) \<and> length (level_pairs ps pop) = length pop"
proof (induction ps pop rule: level_pairs.induct)
  case (1 pop)
  then show ?case by simp
next
  case (2 a b ps pop)
  then show ?case by (simp add: wealth_ok_Proc length_Proc)
qed

lemma wealth_ok_deque_loop:
  "wealth_ok pop \<Longrightarrow> \<forall>e \<in> set q. agent e < length pop \<Longrightarrow>
   wealth_ok (deque_loop j q pop) \<and> length (deque_loop j q pop) = length pop"
  by (induction j q pop rule: deque_loop.induct) (simp_all add: wealth_ok_Proc length_Proc)

lemma wealth_Normalize_set_rates:
  "map wealth (Normalize n (set_rates act pop)) = map wealth pop"
  by (simp add: Normalize_def set_rates_def comp_def)

lemma wealth_ok_map_wealth:
  "map wealth pop' = map wealth pop \<Longrightarrow> wealth_ok pop \<Longrightarrow> wealth_ok pop' \<and> length pop' = length pop"
proof -
  assume eq: "map wealth pop' = map wealth pop" and ok: "wealth_ok pop"
  have len: "length pop' = length pop"
    using eq by (metis length_map)
  have "\<And>i. i < length pop \<Longrightarrow> wealth (pop' ! i) = wealth (pop ! i)"
    using eq len by (metis nth_map)
  then show ?thesis using ok len by (simp add: wealth_ok_def)
qed

lemma set_trim_events: "set (trim_events n es) \<subseteq> set es"
  by (auto simp: trim_events_def Let_def dest: in_set_takeD)

lemma wealth_ok_Poisact:
  assumes "wealth_ok pop" "\<forall>e \<in> set es. agent e < length pop" "sort_ok srt es"
  shows "wealth_ok (Poisact act n srt es pop) \<and> length (Poisact act n srt es pop) = length pop"
proof -
  let ?pop2 = "Normalize n (set_rates act pop)"
  have p2: "wealth_ok ?pop2 \<and> length ?pop2 = length pop"
    using wealth_ok_map_wealth [OF wealth_Normalize_set_rates assms(1)] .
  have "set (srt es) = set es"
    using assms(3) by (auto simp: sort_ok_def dest: mset_eq_setD)
  then have "\<forall>e \<in> set (trim_events (length ?pop2) (srt es)). agent e < length ?pop2"
    using assms(2) set_trim_events p2 by fastforce
  then show ?thesis
    using wealth_ok_deque_loop p2 by (simp add: Poisact_def Let_def)
qed

lemma wealth_ok_Unifact:
  assumes "wealth_ok pop" "set q \<subseteq> {0..<length pop}" "Unifact q pop = Some pop'"
  shows "wealth_ok pop' \<and> length pop' = length pop"
proof -
  obtain ps where ps: "get_pairs (length q div 2) q = Some ps"
      "paired ps = take (2 * (length q div 2)) q"
    using get_pairs_take [of "length q div 2" q] by auto
  have pop': "pop' = level_pairs ps pop"
    using assms(3) ps(1) by (simp add: Unifact_def Unifact_pairs_def)
  have "set (paired ps) \<subseteq> {0..<length pop}"
    using assms(2) set_take_subset [of "2 * (length q div 2)" q] by (auto simp: ps(2))
  moreover have "\<And>p. p \<in> set ps \<Longrightarrow> fst p \<in> set (paired ps) \<and> snd p \<in> set (paired ps)"
    by (induction ps rule: paired.induct) auto
  ultimately have "\<forall>p \<in> set ps. fst p < length pop \<and> snd p < length pop"
    by fastforce
  then show ?thesis
    using wealth_ok_level_pairs assms(1) pop' by simp
qed

lemma wealth_ok_turn:
  assumes "wealth_ok pop" "length pop = n" "draws_ok n d" "sort_ok srt (emitted d)"
    "turn act n srt d pop = Some pop'"
  shows "wealth_ok pop' \<and> length pop' = n"
proof (cases "act = uniform")
  case True
  have "mset (prm d) = mset [0..<n]"
    using assms(3) by (simp add: draws_ok_def)
  then have "set (prm d) = set [0..<n]"
    by (rule mset_eq_setD)
  then have "set (prm d) = {0..<n}" by simp
  then show ?thesis
    using True assms wealth_ok_Unifact [of pop "prm d" pop'] by (simp add: turn_def)
next
  case False
  show ?thesis
  proof (cases "act = random")
    case True
    have "\<forall>p \<in> set (take (n div 2) (picks d)). fst p < length pop \<and> snd p < length pop"
      using assms(2,3) by (auto simp: draws_ok_def dest: in_set_takeD)
    then show ?thesis
      using True assms wealth_ok_level_pairs [of pop "take (n div 2) (picks d)"]
      by (auto simp: turn_def Randmact_def)
  next
    case r: False
    have "\<forall>e \<in> set (emitted d). agent e < length pop"
      using assms(2,3) by (simp add: draws_ok_def)
    then show ?thesis
      using False r assms wealth_ok_Poisact [of pop "emitted d" srt act n]
      by (auto simp: turn_def)
  qed
qed

text \<open>
  Claim C9. Every population the program reaches keeps its size, and every wealth in it is
  a non-negative integer-valued number: \<open>Populate\<close> starts agent \<open>i\<close> with \<open>i + 1\<close>, \<open>Proc\<close>
  writes the floor of the average of two such wealths, and a turn of any policy (uniform,
  random, or one of the three Poisson policies) changes wealths only through \<open>Proc\<close>. The
  random outcome of each turn is arbitrary among the well-formed ones.
\<close>

theorem reachable_wealth:
  assumes "reachable n pop"
  shows "length pop = n \<and> (\<forall>i < n. nonneg_int (wealth (pop ! i)))"
  using assms
proof (induction rule: reachable.induct)
  case start
  show ?case by (simp add: Populate_def)
next
  case (step pop d srt act pop')
  then have "wealth_ok pop" by (simp add: wealth_ok_def)
  then have "wealth_ok pop' \<and> length pop' = n"
    using wealth_ok_turn step by blast
  then show ?case by (auto simp: wealth_ok_def)
qed

theorem reachable_wealth_witness:
  "reachable 2 (Proc 1 0 (Populate 2)) \<and> map wealth (Proc 1 0 (Populate 2)) = [Fin 1, Fin 1] \<and>
   length (Proc 1 0 (Populate 2)) = 2 \<and>
   nonneg_int (wealth (Proc 1 0 (Populate 2) ! 0)) \<and> nonneg_int (wealth (Proc 1 0 (Populate 2) ! 1))"
proof -
  let ?d = "\<lparr>prm = [1, 0], picks = [(0, 1)], emitted = []\<rparr>"
  have d: "draws_ok 2 ?d"
    by (simp add: draws_ok_def upt_rec)
  have s: "sort_ok stable_sort (emitted ?d)"
    by (simp add: sort_ok_def stable_sort_def)
  have "length [1, 0 :: nat] div 2 = Suc 0" by simp
  then have t: "turn uniform 2 stable_sort ?d (Populate 2) = Some (Proc 1 0 (Populate 2))"
    by (simp add: turn_def Unifact_def Unifact_pairs_def)
  have r: "reachable 2 (Proc 1 0 (Populate 2))"
    using reachable.step [OF reachable.start d s t] .
  have w: "map wealth (Proc 1 0 (Populate 2)) = [Fin 1, Fin 1]"
    by (simp add: Populate_def Proc_def averg_def Let_def upt_rec)
  show ?thesis
    using r w reachable_wealth [OF r] by simp
qed

section \<open>The trajectory of a run\<close>

lemma get_pairs_total: "\<exists>ps. get_pairs (length q div 2) q = Some ps"
  using get_pairs_take [of "length q div 2" q] by auto

lemma turn_total: "\<exists>pop'. turn act n srt d pop = Some pop'"
  using get_pairs_total [of "prm d"] by (auto simp: turn_def Unifact_def Unifact_pairs_def)

lemma turns_loop_length:
  assumes "\<And>i pop. \<exists>pop'. tr i pop = Some pop'"
  shows "\<exists>out. turns_loop sdw tr k i pop sds = Some out \<and> length out = length sds + k \<and>
           take (length sds) out = sds"
proof (induction k arbitrary: i pop sds)
  case 0
  show ?case by simp
next
  case (Suc k)
  obtain pop' where p: "tr i pop = Some pop'"
    using assms by blast
  obtain out where out: "turns_loop sdw tr k (Suc i) pop' (sds @ [sdw pop']) = Some out"
      "length out = length (sds @ [sdw pop']) + k"
      "take (length (sds @ [sdw pop'])) out = sds @ [sdw pop']"
    using Suc.IH by blast
  have "take (length sds) (take (length (sds @ [sdw pop'])) out) = take (length sds) out"
    by (simp add: min_def)
  then have "take (length sds) out = take (length sds) (sds @ [sdw pop'])"
    by (simp only: out(3))
  then have "take (length sds) out = sds"
    by simp
  then show ?case
    using p out(1,2) by simp
qed

lemma copy_into_longer:
  "length dst \<le> length src \<Longrightarrow> copy_into dst src = take (length dst) src"
  by (simp add: copy_into_def)

text \<open>
  Claim C8, as the code has it. A run of \<open>NumTurns\<close> turns always completes and records
  \<open>NumTurns + 1\<close> deviations, the first one that of the fresh population. The matrix row the
  trajectory is stored in has only \<open>NumTurns\<close> columns, so the sequence that reaches the
  regression is the trajectory without its last value: the deviation after the last turn
  is recorded and then lost.
\<close>

theorem runArray_drops_last:
  assumes "ri < NumRuns"
  shows "\<exists>sds. run_sds sdw (\<lambda>i. turn act n srt (ds i)) NumTurns n = Some sds \<and>
           length sds = NumTurns + 1 \<and> hd sds = sdw (Populate n) \<and>
           runArray sdw (\<lambda>i. turn act n srt (ds i)) NumRuns NumTurns n ri = Some (butlast sds)"
proof -
  let ?tr = "\<lambda>i. turn act n srt (ds i)"
  have "\<And>i pop. \<exists>pop'. ?tr i pop = Some pop'"
    using turn_total by blast
  then obtain sds where sds:
      "turns_loop sdw ?tr NumTurns 0 (Populate n) [sdw (Populate n)] = Some sds"
      "length sds = length [sdw (Populate n)] + NumTurns"
      "take (length [sdw (Populate n)]) sds = [sdw (Populate n)]"
    using turns_loop_length [of ?tr sdw NumTurns 0 "Populate n" "[sdw (Populate n)]"] by blast
  have run: "run_sds sdw ?tr NumTurns n = Some sds"
    using sds(1) by (simp add: run_sds_def Let_def)
  have len: "length sds = NumTurns + 1"
    using sds(2) by simp
  have hd: "hd sds = sdw (Populate n)"
    using sds(3) len by (cases sds) auto
  have row: "copy_into (replicate NumTurns (Fin 0)) sds = take NumTurns sds"
    using len by (simp add: copy_into_longer)
  have set: "SetRow (NewDense NumRuns NumTurns) ri sds
               = Some ((NewDense NumRuns NumTurns)[ri := take NumTurns sds])"
    using assms row by (simp add: SetRow_def NewDense_def)
  have "Row ((NewDense NumRuns NumTurns)[ri := take NumTurns sds]) (replicate NumTurns (Fin 0)) ri
          = Some (take NumTurns sds)"
    using assms len by (simp add: Row_def NewDense_def copy_into_def)
  moreover have "take NumTurns sds = butlast sds"
    using len by (simp add: butlast_conv_take)
  ultimately have "runArray sdw ?tr NumRuns NumTurns n ri = Some (butlast sds)"
    using run set by (simp add: runArray_def)
  then show ?thesis
    using run len hd by blast
qed

theorem runArray_drops_last_witness:
  "(0::nat) < 1 \<and>
   run_sds total_dist (\<lambda>i. turn uniform 2 stable_sort \<lparr>prm = [1, 0], picks = [], emitted = []\<rparr>) 2 2
     = Some [Fin 1, Fin 0, Fin 0] \<and>
   runArray total_dist (\<lambda>i. turn uniform 2 stable_sort \<lparr>prm = [1, 0], picks = [], emitted = []\<rparr>) 1 2 2 0
     = Some [Fin 1, Fin 0]"
proof -
  let ?d = "\<lparr>prm = [1, 0], picks = [], emitted = []\<rparr>"
  let ?eq = "[\<lparr>wealth = Fin 1, lam = Fin 0\<rparr>, \<lparr>wealth = Fin 1, lam = Fin 0\<rparr>]"
  have h: "(0::nat) < 1" by simp
  have "length [1, 0 :: nat] div 2 = Suc 0" by simp
  then have t: "\<And>pop. turn uniform 2 stable_sort ?d pop = Some (Proc 1 0 pop)"
    by (simp add: turn_def Unifact_def Unifact_pairs_def)
  have p: "Proc 1 0 (Populate 2) = ?eq"
    by (simp add: Populate_def Proc_def averg_def Let_def upt_rec)
  have p2: "Proc 1 0 ?eq = ?eq"
    by (simp add: Proc_def averg_def Let_def)
  have d0: "total_dist (Populate 2) = Fin 1"
    by (simp add: total_dist_def mean_wealth_def StatsMean_def fsum_def fsub_def Populate_def upt_rec)
  have d1: "total_dist ?eq = Fin 0"
    by (simp add: total_dist_def mean_wealth_def StatsMean_def fsum_def fsub_def)
  have two: "\<And>tr i pop sds.
      turns_loop total_dist tr 2 i pop sds = turns_loop total_dist tr (Suc (Suc 0)) i pop sds"
    by (simp only: numeral_2_eq_2)
  have r: "run_sds total_dist (\<lambda>i. turn uniform 2 stable_sort ?d) 2 2 = Some [Fin 1, Fin 0, Fin 0]"
    by (simp add: run_sds_def Let_def two t p p2 d0 d1 del: One_nat_def)
  show ?thesis
    using h r runArray_drops_last [OF h, of total_dist uniform 2 stable_sort "\<lambda>i. ?d" 2] by simp
qed

section \<open>Raw rates\<close>













section \<open>Normalised rates\<close>






lemmas rate_eval = Normalize_def scaled_def set_rates_def raw_rate_def total_dist_def
  mean_wealth_def StatsMean_def fsum_def fsub_def Populate_def upt_rec Let_def



section \<open>The unguarded divisor\<close>

text \<open>
  Claim C10. Two agents of wealths 1 and 2 under the \<open>poisson\<close> policy: a first turn in which
  each agent is activated once (\<open>first_turn\<close>) levels them to wealth 1 each. On that
  population, which has two agents of equal wealth, the total
  distance from the mean is \<open>0\<close> and the \<open>poisson\<close> branch divides \<open>0\<close> by it, which gives NaN
  for every agent. The \<open>inversePoisson\<close> and \<open>naturalPoisson\<close> branches replace their zero
  denominators and give finite rates on the same population.
\<close>

theorem poisson_zero_divisor:
  "map wealth first_turn = [Fin 1, Fin 1] \<and>
   total_dist first_turn = Fin 0 \<and>
   map lam (set_rates poisson first_turn) = [NaN, NaN] \<and>
   map lam (set_rates inversePoisson first_turn) = [Fin 0, Fin 0] \<and>
   map lam (set_rates naturalPoisson first_turn) = [Fin 1, Fin 1]"
proof -
  let ?es = "[\<lparr>time = 1 / 4, agent = 0\<rparr>, \<lparr>time = 1 / 2, agent = 1\<rparr>]"
  have n: "Normalize 2 (set_rates poisson (Populate 2))
             = [\<lparr>wealth = Fin 1, lam = Fin (11 / 10)\<rparr>, \<lparr>wealth = Fin 2, lam = Fin (11 / 10)\<rparr>]"
    by (simp add: rate_eval)
  have p: "Poisact poisson 2 stable_sort ?es (Populate 2)
          = [\<lparr>wealth = Fin 1, lam = Fin (11 / 10)\<rparr>, \<lparr>wealth = Fin 1, lam = Fin (11 / 10)\<rparr>]"
    by (simp add: Poisact_def n stable_sort_def trim_events_def Proc_def averg_def Let_def)
  show ?thesis
    unfolding first_turn_def p by (simp add: rate_eval)
qed

section \<open>From events to pairs\<close>

lemma trim_events_take:
  "trim_events n es = take (min (length es - length es mod 2) n) es"
proof -
  have "length es mod 2 = 0 \<or> length es mod 2 = 1" by arith
  then show ?thesis
    by (auto simp: trim_events_def Let_def min_def)
qed

lemma map_upt_Suc_shift: "map f [0..<Suc j] = f 0 # map (\<lambda>k. f (Suc k)) [0..<j]"
  by (simp only: upt_conv_Cons [of 0 "Suc j"] map_Suc_upt [symmetric] list.map map_map comp_def zero_less_Suc)

lemma deque_loop_pairs:
  "2 * j \<le> length q \<Longrightarrow>
   deque_loop j q pop
     = level_pairs (map (\<lambda>k. (agent (q ! (2 * k)), agent (q ! (2 * k + 1)))) [0..<j]) pop"
proof (induction j q pop rule: deque_loop.induct)
  case (1 q pop)
  then show ?case by simp
next
  case (2 j al be q pop)
  then have "deque_loop j q (Proc (agent al) (agent be) pop)
    = level_pairs (map (\<lambda>k. (agent (q ! (2 * k)), agent (q ! (2 * k + 1)))) [0..<j])
        (Proc (agent al) (agent be) pop)"
    by simp
  then show ?case
    by (simp add: map_upt_Suc_shift del: upt_Suc)
qed simp_all

lemma map_wealth_Proc:
  assumes "a < length pop" "b < length pop"
  shows "map wealth (Proc a b pop)
           = (map wealth pop)[b := averg (wealth (pop ! a)) (wealth (pop ! b)),
                              a := averg (wealth (pop ! a)) (wealth (pop ! b))]"
proof (rule nth_equalityI)
  show "length (map wealth (Proc a b pop))
          = length ((map wealth pop)[b := averg (wealth (pop ! a)) (wealth (pop ! b)),
                                     a := averg (wealth (pop ! a)) (wealth (pop ! b))])"
    by (simp add: length_Proc)
next
  fix i assume "i < length (map wealth (Proc a b pop))"
  then have i: "i < length pop" by (simp add: length_Proc)
  then show "map wealth (Proc a b pop) ! i
          = (map wealth pop)[b := averg (wealth (pop ! a)) (wealth (pop ! b)),
                             a := averg (wealth (pop ! a)) (wealth (pop ! b))] ! i"
    using assms by (simp add: length_Proc wealth_Proc nth_list_update)
qed

lemma wealth_step:
  assumes "map wealth pop = ws" "a < length ws" "b < length ws"
  shows "map wealth (Proc a b pop) = ws[b := averg (ws ! a) (ws ! b), a := averg (ws ! a) (ws ! b)]"
proof -
  have "a < length pop" "b < length pop"
    using assms by auto
  moreover from this have "wealth (pop ! a) = ws ! a" "wealth (pop ! b) = ws ! b"
    using assms(1) by auto
  ultimately show ?thesis
    using assms(1) by (simp add: map_wealth_Proc)
qed

lemmas sort_eval = sort_small_def insertionSort_def shell_pass_def Swap_def Less_def upt_rec

text \<open>
  Claim C2, as amended. Let \<open>srt\<close> return the emitted events ascending by time, as
  \<open>sort.Sort\<close> promises; the order of events with equal times is whatever \<open>srt\<close> makes it.
  In a Poisson-family turn the sorted list then loses its last event if the count is odd,
  is cut to the population's size if it is longer, and stays sorted; and the turn levels
  the agents of events \<open>2k\<close> and \<open>2k+1\<close> of the resulting list, for \<open>k\<close> from the front up to
  half its length, on the population with its normalised rates.
\<close>

theorem Poisact_pairs_in_time_order:
  assumes "sort_ok srt es"
  shows "mset (srt es) = mset es \<and>
         trim_events (length pop) (srt es)
           = take (min (length es - length es mod 2) (length pop)) (srt es) \<and>
         sorted (map time (trim_events (length pop) (srt es))) \<and>
         Poisact act n srt es pop
           = level_pairs (event_pairs (trim_events (length pop) (srt es)))
               (Normalize n (set_rates act pop))"
proof -
  let ?aT = "trim_events (length pop) (srt es)"
  have m: "mset (srt es) = mset es" and s: "sorted (map time (srt es))"
    using assms by (simp_all add: sort_ok_def)
  have len: "length (srt es) = length es"
    using mset_eq_length [OF m] .
  have t: "?aT = take (min (length es - length es mod 2) (length pop)) (srt es)"
    by (simp add: trim_events_take len)
  have "sorted (take (min (length es - length es mod 2) (length pop)) (map time (srt es)))"
    using s by (rule sorted_wrt_take)
  then have st: "sorted (map time ?aT)"
    by (simp add: t take_map)
  have l2: "length (Normalize n (set_rates act pop)) = length pop"
    by (simp add: Normalize_def set_rates_def)
  have "2 * (length ?aT div 2) \<le> length ?aT" by simp
  then have "deque_loop (length ?aT div 2) ?aT (Normalize n (set_rates act pop))
      = level_pairs (event_pairs ?aT) (Normalize n (set_rates act pop))"
    by (simp only: deque_loop_pairs event_pairs_def)
  then have "Poisact act n srt es pop
      = level_pairs (event_pairs ?aT) (Normalize n (set_rates act pop))"
    by (simp add: Poisact_def Let_def l2)
  then show ?thesis
    using m t st by blast
qed

theorem Poisact_pairs_in_time_order_witness:
  "sort_ok sort_small five_events \<and>
   trim_events (length (Populate 2)) (sort_small five_events)
     = [\<lparr>time = 1 / 4, agent = 1\<rparr>, \<lparr>time = 1 / 2, agent = 0\<rparr>] \<and>
   map wealth (Poisact inversePoisson 2 sort_small five_events (Populate 2)) = [Fin 1, Fin 1]"
proof -
  let ?es = "[\<lparr>time = 1 / 2, agent = 0\<rparr>, \<lparr>time = 3 / 4, agent = 0\<rparr>, \<lparr>time = 1 / 4, agent = 1\<rparr>,
      \<lparr>time = 2 / 3, agent = 1\<rparr>, \<lparr>time = 9 / 10, agent = 1\<rparr>]"
  have srt: "sort_small ?es
      = [\<lparr>time = 1 / 4, agent = 1\<rparr>, \<lparr>time = 1 / 2, agent = 0\<rparr>, \<lparr>time = 2 / 3, agent = 1\<rparr>,
         \<lparr>time = 3 / 4, agent = 0\<rparr>, \<lparr>time = 9 / 10, agent = 1\<rparr>]"
    by (simp add: sort_eval)
  have ok: "sort_ok sort_small ?es"
    unfolding sort_ok_def srt by simp
  have tr: "trim_events (length (Populate 2)) (sort_small ?es)
      = [\<lparr>time = 1 / 4, agent = 1\<rparr>, \<lparr>time = 1 / 2, agent = 0\<rparr>]"
    unfolding srt by (simp add: trim_events_def Populate_def)
  have ep: "event_pairs [\<lparr>time = 1 / 4, agent = 1\<rparr>, \<lparr>time = 1 / 2, agent = 0\<rparr>] = [(1, 0)]"
    by (simp add: event_pairs_def)
  have w: "map wealth (level_pairs [(1, 0)] (Normalize 2 (set_rates inversePoisson (Populate 2))))
      = [Fin 1, Fin 1]"
    by (simp add: Normalize_def set_rates_def Populate_def Proc_def averg_def Let_def upt_rec)
  have "Poisact inversePoisson 2 sort_small ?es (Populate 2)
      = level_pairs (event_pairs (trim_events (length (Populate 2)) (sort_small ?es)))
          (Normalize 2 (set_rates inversePoisson (Populate 2)))"
    using Poisact_pairs_in_time_order [OF ok, of "Populate 2" inversePoisson 2] by blast
  then have "Poisact inversePoisson 2 sort_small ?es (Populate 2)
      = level_pairs [(1, 0)] (Normalize 2 (set_rates inversePoisson (Populate 2)))"
    by (simp only: tr ep)
  then have "map wealth (Poisact inversePoisson 2 sort_small ?es (Populate 2)) = [Fin 1, Fin 1]"
    by (simp only: w)
  then show ?thesis
    unfolding five_events_def using ok tr by blast
qed

text \<open>
  Seven agents, one event each, emitted in agent order: agents 0 to 5 at time \<open>1/2\<close>, agent 6
  at time \<open>1/4\<close>. The sorter above meets the contract on this input and puts agent 0 last
  among the equal times, where a stable sort keeps it first; the turn then levels the pairs
  (6,1), (2,3), (4,5) and not (6,0), (1,2), (3,4), and the wealths after the turn differ.
\<close>

theorem Poisact_pairs_in_time_order_counterexample:
  "sort_ok sort_small tied_events \<and>
   map agent (sort_small tied_events) = [6, 1, 2, 3, 4, 5, 0] \<and>
   map agent (stable_sort tied_events) = [6, 0, 1, 2, 3, 4, 5] \<and>
   map wealth (Poisact inversePoisson 7 sort_small tied_events (Populate 7))
     = [Fin 1, Fin 4, Fin 3, Fin 3, Fin 5, Fin 5, Fin 4] \<and>
   map wealth (Poisact inversePoisson 7 stable_sort tied_events (Populate 7))
     = [Fin 4, Fin 2, Fin 2, Fin 4, Fin 4, Fin 6, Fin 4]"
proof -
  let ?es = "[\<lparr>time = 1 / 2, agent = 0\<rparr>, \<lparr>time = 1 / 2, agent = 1\<rparr>, \<lparr>time = 1 / 2, agent = 2\<rparr>,
      \<lparr>time = 1 / 2, agent = 3\<rparr>, \<lparr>time = 1 / 2, agent = 4\<rparr>, \<lparr>time = 1 / 2, agent = 5\<rparr>,
      \<lparr>time = 1 / 4, agent = 6\<rparr>]"
  let ?pop2 = "Normalize 7 (set_rates inversePoisson (Populate 7))"
  have go: "sort_small ?es
      = [\<lparr>time = 1 / 4, agent = 6\<rparr>, \<lparr>time = 1 / 2, agent = 1\<rparr>, \<lparr>time = 1 / 2, agent = 2\<rparr>,
         \<lparr>time = 1 / 2, agent = 3\<rparr>, \<lparr>time = 1 / 2, agent = 4\<rparr>, \<lparr>time = 1 / 2, agent = 5\<rparr>,
         \<lparr>time = 1 / 2, agent = 0\<rparr>]"
    by (simp add: sort_eval)
  have st: "stable_sort ?es
      = [\<lparr>time = 1 / 4, agent = 6\<rparr>, \<lparr>time = 1 / 2, agent = 0\<rparr>, \<lparr>time = 1 / 2, agent = 1\<rparr>,
         \<lparr>time = 1 / 2, agent = 2\<rparr>, \<lparr>time = 1 / 2, agent = 3\<rparr>, \<lparr>time = 1 / 2, agent = 4\<rparr>,
         \<lparr>time = 1 / 2, agent = 5\<rparr>]"
    by (simp add: stable_sort_def)
  have ok: "sort_ok sort_small ?es"
    unfolding sort_ok_def go by simp
  have l2: "length ?pop2 = 7"
    by (simp add: Normalize_def set_rates_def Populate_def)
  have w2: "map wealth ?pop2 = [Fin 1, Fin 2, Fin 3, Fin 4, Fin 5, Fin 6, Fin 7]"
    by (simp add: wealth_Normalize_set_rates Populate_def upt_rec)
  have tg: "trim_events 7 (sort_small ?es)
      = [\<lparr>time = 1 / 4, agent = 6\<rparr>, \<lparr>time = 1 / 2, agent = 1\<rparr>, \<lparr>time = 1 / 2, agent = 2\<rparr>,
         \<lparr>time = 1 / 2, agent = 3\<rparr>, \<lparr>time = 1 / 2, agent = 4\<rparr>, \<lparr>time = 1 / 2, agent = 5\<rparr>]"
    unfolding go by (simp add: trim_events_def)
  have ts: "trim_events 7 (stable_sort ?es)
      = [\<lparr>time = 1 / 4, agent = 6\<rparr>, \<lparr>time = 1 / 2, agent = 0\<rparr>, \<lparr>time = 1 / 2, agent = 1\<rparr>,
         \<lparr>time = 1 / 2, agent = 2\<rparr>, \<lparr>time = 1 / 2, agent = 3\<rparr>, \<lparr>time = 1 / 2, agent = 4\<rparr>]"
    unfolding st by (simp add: trim_events_def)
  have pg: "Poisact inversePoisson 7 sort_small ?es (Populate 7)
      = Proc 4 5 (Proc 2 3 (Proc 6 1 ?pop2))"
    unfolding Poisact_def Let_def l2 tg by (simp add: numeral_3_eq_3)
  have ps: "Poisact inversePoisson 7 stable_sort ?es (Populate 7)
      = Proc 3 4 (Proc 1 2 (Proc 6 0 ?pop2))"
    unfolding Poisact_def Let_def l2 ts by (simp add: numeral_3_eq_3)
  have g1: "map wealth (Proc 6 1 ?pop2) = [Fin 1, Fin 4, Fin 3, Fin 4, Fin 5, Fin 6, Fin 4]"
    by (subst wealth_step [OF w2]) (simp_all add: averg_def)
  have g2: "map wealth (Proc 2 3 (Proc 6 1 ?pop2)) = [Fin 1, Fin 4, Fin 3, Fin 3, Fin 5, Fin 6, Fin 4]"
    by (subst wealth_step [OF g1]) (simp_all add: averg_def)
  have g3: "map wealth (Proc 4 5 (Proc 2 3 (Proc 6 1 ?pop2)))
      = [Fin 1, Fin 4, Fin 3, Fin 3, Fin 5, Fin 5, Fin 4]"
    by (subst wealth_step [OF g2]) (simp_all add: averg_def)
  have s1: "map wealth (Proc 6 0 ?pop2) = [Fin 4, Fin 2, Fin 3, Fin 4, Fin 5, Fin 6, Fin 4]"
    by (subst wealth_step [OF w2]) (simp_all add: averg_def)
  have s2: "map wealth (Proc 1 2 (Proc 6 0 ?pop2)) = [Fin 4, Fin 2, Fin 2, Fin 4, Fin 5, Fin 6, Fin 4]"
    by (subst wealth_step [OF s1]) (simp_all add: averg_def)
  have s3: "map wealth (Proc 3 4 (Proc 1 2 (Proc 6 0 ?pop2)))
      = [Fin 4, Fin 2, Fin 2, Fin 4, Fin 4, Fin 6, Fin 4]"
    by (subst wealth_step [OF s2]) (simp_all add: averg_def)
  have a1: "map agent (sort_small ?es) = [6, 1, 2, 3, 4, 5, 0]"
    unfolding go by simp
  have a2: "map agent (stable_sort ?es) = [6, 0, 1, 2, 3, 4, 5]"
    unfolding st by simp
  show ?thesis
    unfolding tied_events_def using ok a1 a2 g3 s3 by (simp only: pg ps simp_thms)
qed

end
